theory Spec2Isabelle
  imports Complex_Main
begin

section \<open>Word timings of the text-to-speech pipeline (src/audio/tts.py)\<close>

text \<open>
  The three timing functions of \<^verbatim>\<open>src/audio/tts.py\<close> are embedded here:
  \<^verbatim>\<open>_generate_approximate_word_timings\<close> (the estimator),
  \<^verbatim>\<open>_expand_numeric_references\<close> (the expander) and
  \<^verbatim>\<open>_fix_reference_order\<close> (the corrector). Isabelle names cannot start
  with an underscore, so each keeps the source's name without it.

  Modelling decisions, valid for the whole development:
  \<^item> A Python \<^verbatim>\<open>str\<close> is a \<open>string\<close> (a list of 8-bit characters, one per code
    point below 256). In that range \<^verbatim>\<open>\d\<close> matches exactly \<^verbatim>\<open>0\<close>..\<^verbatim>\<open>9\<close> and
    \<^verbatim>\<open>str.split()\<close> splits on the twelve characters of \<open>is_space\<close>.
  \<^item> A Python \<^verbatim>\<open>float\<close> is an exact \<open>real\<close>: rounding, overflow to infinity and
    NaN are outside the model. Comparisons and the four operations are the exact ones;
    a division raises \<^verbatim>\<open>ZeroDivisionError\<close> on a zero divisor, as in Python.
    Likewise \<^verbatim>\<open>float(word)\<close> is the exact decimal value of a numeral. (CPython
    rounds it to the nearest double, so a numeral less than about 1e-14 below an
    integer can truncate to that integer, and \<^verbatim>\<open>int\<close> raises \<^verbatim>\<open>OverflowError\<close> on a
    numeral of some 309 digits that rounds to infinity; neither is modelled.)
  \<^item> A timing entry is the source's tuple \<^verbatim>\<open>(word, start_time, end_time)\<close>.
  \<^item> An exception is a value: functions that can raise return \<open>error + 'a\<close>.
\<close>

subsection \<open>Python values\<close>

datatype error = ZeroDivisionError | IndexError

type_synonym timing = "string \<times> real \<times> real"

definition t_word :: "timing \<Rightarrow> string" where
  "t_word t = fst t"

definition t_start :: "timing \<Rightarrow> real" where
  "t_start t = fst (snd t)"

definition t_end :: "timing \<Rightarrow> real" where
  "t_end t = snd (snd t)"

text \<open>The operator \<^verbatim>\<open>a / b\<close> on floats.\<close>

definition py_truediv :: "real \<Rightarrow> real \<Rightarrow> error + real" where
  "py_truediv a b = (if b = 0 then Inl ZeroDivisionError else Inr (a / b))"

text \<open>Sequencing of computations that may raise: the first exception wins.\<close>

definition and_then :: "error + 'a \<Rightarrow> ('a \<Rightarrow> error + 'b) \<Rightarrow> error + 'b" where
  "and_then r f = (case r of Inl e \<Rightarrow> Inl e | Inr v \<Rightarrow> f v)"

subsection \<open>Strings\<close>

text \<open>The characters \<^verbatim>\<open>str.isspace\<close> accepts among the code points below 256.\<close>

definition is_space :: "char \<Rightarrow> bool" where
  "is_space c = (c \<in> set [CHR 0x09, CHR 0x0A, CHR 0x0B, CHR 0x0C, CHR 0x0D,
      CHR 0x1C, CHR 0x1D, CHR 0x1E, CHR 0x1F, CHR 0x20, CHR 0x85, CHR 0xA0])"

definition is_digit :: "char \<Rightarrow> bool" where
  "is_digit c = (c \<in> set ''0123456789'')"

text \<open>
  \<^verbatim>\<open>text.split()\<close>: the maximal runs of non-whitespace characters, in order.
  \<open>split_from cur s\<close> scans \<open>s\<close> with the word read so far in \<open>cur\<close>.
\<close>

fun split_from :: "string \<Rightarrow> string \<Rightarrow> string list" where
  "split_from cur [] = (if cur = [] then [] else [cur])"
| "split_from cur (c # cs) =
     (if is_space c then (if cur = [] then split_from [] cs else cur # split_from [] cs)
      else split_from (cur @ [c]) cs)"

definition split_ws :: "string \<Rightarrow> string list" where
  "split_ws s = split_from [] s"

subsection \<open>The regular expressions of the source\<close>

text \<open>
  \<open>at_dollar r\<close>: Python's \<^verbatim>\<open>$\<close> matches where the remaining input \<open>r\<close> is empty or is
  one final newline.
\<close>

definition at_dollar :: "string \<Rightarrow> bool" where
  "at_dollar r = (r = [] \<or> r = [CHR 0x0A])"

text \<open>
  \<^verbatim>\<open>re.compile(r'^\d+:\d+(-\d+)?$').match(word)\<close> finds a match. A greedy \<^verbatim>\<open>\d+\<close>
  followed by a non-digit can only take the whole run of digits, so the matcher
  reads each run with \<open>takeWhile\<close> and continues on the rest.
\<close>

definition verse_reference_pattern_match :: "string \<Rightarrow> bool" where
  "verse_reference_pattern_match word =
     (let chapter = takeWhile is_digit word; r1 = dropWhile is_digit word in
      chapter \<noteq> [] \<and>
      (case r1 of [] \<Rightarrow> False
       | c1 # r2 \<Rightarrow> c1 = CHR '':'' \<and>
          (let verse = takeWhile is_digit r2; r3 = dropWhile is_digit r2 in
           verse \<noteq> [] \<and>
           (at_dollar r3 \<or>
            (case r3 of [] \<Rightarrow> False
             | c3 # r4 \<Rightarrow> c3 = CHR ''-'' \<and>
                 takeWhile is_digit r4 \<noteq> [] \<and> at_dollar (dropWhile is_digit r4))))))"

text \<open>\<^verbatim>\<open>re.compile(r'^\d+(\.\d+)?$').match(word)\<close> finds a match.\<close>

definition numeric_pattern_match :: "string \<Rightarrow> bool" where
  "numeric_pattern_match word =
     (let whole = takeWhile is_digit word; r1 = dropWhile is_digit word in
      whole \<noteq> [] \<and>
      (at_dollar r1 \<or>
       (case r1 of [] \<Rightarrow> False
        | c1 # r2 \<Rightarrow> c1 = CHR ''.'' \<and>
            takeWhile is_digit r2 \<noteq> [] \<and> at_dollar (dropWhile is_digit r2))))"

subsection \<open>The estimator: \<^verbatim>\<open>_generate_approximate_word_timings\<close>\<close>

text \<open>The factor the first pass gives a word (the three branches of its loop body).\<close>

definition word_length_factor :: "string \<Rightarrow> real" where
  "word_length_factor word =
     (if verse_reference_pattern_match word then
        (let base_factor = real (length word) / 5;
             adjusted_factor = base_factor * 3.0
         in max 0.5 (min 4.0 adjusted_factor))
      else if numeric_pattern_match word then
        (let base_factor = real (length word) / 5;
             adjusted_factor = base_factor * 2.0
         in max 0.5 (min 3.0 adjusted_factor))
      else
        (let factor = real (length word) / 5
         in max 0.5 (min 2.0 factor)))"

text \<open>The indices the first pass appends to \<^verbatim>\<open>special_case_indices\<close>.\<close>

definition special_case_indices :: "string list \<Rightarrow> nat list" where
  "special_case_indices words =
     filter (\<lambda>i. verse_reference_pattern_match (words ! i) \<or> numeric_pattern_match (words ! i))
       [0..<length words]"

definition initial_durations :: "string list \<Rightarrow> real \<Rightarrow> real list" where
  "initial_durations words avg_word_duration =
     map (\<lambda>word. word_length_factor word * avg_word_duration) words"

text \<open>
  The block "Adjust for the extra time given to special cases": the durations that the
  timing loop reads afterwards.
\<close>

definition adjust_durations :: "string list \<Rightarrow> real \<Rightarrow> real list \<Rightarrow> error + real list" where
  "adjust_durations words duration durations =
     (if special_case_indices words \<noteq> [] \<and> length words > length (special_case_indices words) then
        (let total_duration = sum_list durations in
         if total_duration > duration then
           and_then (py_truediv duration total_duration)
             (\<lambda>scale_factor. Inr (map (\<lambda>d. d * scale_factor) durations))
         else Inr durations)
      else Inr durations)"

text \<open>
  The loop that builds \<^verbatim>\<open>word_timings\<close>, with \<^verbatim>\<open>current_time\<close> as its state;
  \<^verbatim>\<open>initial_durations[i]\<close> raises when the list of durations is too short.
\<close>

fun assign_timings :: "real \<Rightarrow> string list \<Rightarrow> real list \<Rightarrow> error + timing list" where
  "assign_timings current_time [] durations = Inr []"
| "assign_timings current_time (word # words) [] = Inl IndexError"
| "assign_timings current_time (word # words) (word_duration # durations) =
     and_then (assign_timings (current_time + word_duration) words durations)
       (\<lambda>rest. Inr ((word, current_time, current_time + word_duration) # rest))"

text \<open>The final block "normalize to match total audio duration".\<close>

definition normalize_timings :: "real \<Rightarrow> timing list \<Rightarrow> error + timing list" where
  "normalize_timings duration word_timings =
     (if word_timings \<noteq> [] then
        (let last_word_end = t_end (last word_timings) in
         if \<bar>last_word_end - duration\<bar> > 0.01 then
           and_then (py_truediv duration last_word_end)
             (\<lambda>scale_factor.
                Inr (map (\<lambda>(word, start, end). (word, start * scale_factor, end * scale_factor))
                       word_timings))
         else Inr word_timings)
      else Inr word_timings)"

definition generate_approximate_word_timings :: "string \<Rightarrow> real \<Rightarrow> error + timing list" where
  "generate_approximate_word_timings text duration =
     (let words = split_ws text in
      if words = [] then Inr []
      else
        and_then (py_truediv duration (real (length words))) (\<lambda>avg_word_duration.
        and_then (adjust_durations words duration (initial_durations words avg_word_duration))
          (\<lambda>durations.
        and_then (assign_timings 0 words durations) (\<lambda>word_timings.
        normalize_timings duration word_timings))))"

subsection \<open>The expander: \<^verbatim>\<open>_expand_numeric_references\<close>\<close>

text \<open>\<^verbatim>\<open>' '.join(parts)\<close>.\<close>

fun join_space :: "string list \<Rightarrow> string" where
  "join_space [] = []"
| "join_space [w] = w"
| "join_space (w # v # ws) = w @ CHR '' '' # join_space (v # ws)"

text \<open>
  The citation pattern \<^verbatim>\<open>\([^)]*\d+:\d+[^)]*\)\<close>. A match that starts at an opening
  parenthesis ends at the first closing parenthesis after it, because \<^verbatim>\<open>[^)]*\<close> cannot
  cross one; it exists when the text in between holds a digit, a colon and a digit in a
  row (the two \<^verbatim>\<open>[^)]*\<close> take whatever surrounds them, further digits included).
\<close>

fun contains_verse_ref :: "string \<Rightarrow> bool" where
  "contains_verse_ref (a # b # c # r) =
     ((is_digit a \<and> b = CHR '':'' \<and> is_digit c) \<or> contains_verse_ref (b # c # r))"
| "contains_verse_ref _ = False"

text \<open>
  The match of the citation pattern that starts at the first character of \<open>s\<close>, with the
  input that follows it.
\<close>

definition citation_match_at :: "string \<Rightarrow> (string \<times> string) option" where
  "citation_match_at s =
     (case s of [] \<Rightarrow> None
      | c # r \<Rightarrow>
          if c = CHR ''('' then
            (let body = takeWhile (\<lambda>x. x \<noteq> CHR '')'') r;
                 closing = dropWhile (\<lambda>x. x \<noteq> CHR '')'') r
             in if closing \<noteq> [] \<and> contains_verse_ref body
                then Some (CHR ''('' # body @ [CHR '')''], tl closing) else None)
          else None)"

text \<open>\<^verbatim>\<open>citation_pattern.search(text)\<close> finds a match.\<close>

fun citation_pattern_search :: "string \<Rightarrow> bool" where
  "citation_pattern_search [] = False"
| "citation_pattern_search (c # r) =
     (citation_match_at (c # r) \<noteq> None \<or> citation_pattern_search r)"

text \<open>\<^verbatim>\<open>word.split(':')\<close> and indexing into its result.\<close>

fun split_on :: "char \<Rightarrow> string \<Rightarrow> string list" where
  "split_on sep [] = [[]]"
| "split_on sep (c # cs) =
     (if c = sep then [] # split_on sep cs
      else (case split_on sep cs of [] \<Rightarrow> [[c]] | p # ps \<Rightarrow> (c # p) # ps))"

definition list_get :: "'a list \<Rightarrow> nat \<Rightarrow> error + 'a" where
  "list_get xs i = (if i < length xs then Inr (xs ! i) else Inl IndexError)"

text \<open>
  \<^verbatim>\<open>float(word)\<close> for a word that \<^verbatim>\<open>numeric_pattern\<close> accepts (its only call is under
  that test): the decimal value of the digits, with the digits after a point as the
  fraction. A final newline, which \<^verbatim>\<open>$\<close> tolerates, is ignored by \<^verbatim>\<open>float\<close> too.
\<close>

definition digit_value :: "char \<Rightarrow> nat" where
  "digit_value c = of_char c - 48"

definition digits_value :: "string \<Rightarrow> nat" where
  "digits_value ds = foldl (\<lambda>acc c. 10 * acc + digit_value c) 0 ds"

definition py_float :: "string \<Rightarrow> real" where
  "py_float word =
     (let whole = takeWhile is_digit word; r = dropWhile is_digit word in
      case r of
        [] \<Rightarrow> real (digits_value whole)
      | c # r' \<Rightarrow>
          if c = CHR ''.'' then
            (let frac = takeWhile is_digit r' in
             real (digits_value whole) + real (digits_value frac) / 10 ^ length frac)
          else real (digits_value whole))"

text \<open>\<^verbatim>\<open>int(x)\<close> on a float: truncation towards zero.\<close>

definition py_int :: "real \<Rightarrow> int" where
  "py_int x = (if 0 \<le> x then \<lfloor>x\<rfloor> else \<lceil>x\<rceil>)"

text \<open>
  The decimal text of an integer, as \<^verbatim>\<open>f"{n}"\<close> prints it. \<open>digit_char\<close> is only
  applied to numbers below 10.
\<close>

definition digit_char :: "nat \<Rightarrow> char" where
  "digit_char d = ''0123456789'' ! d"

fun str_nat :: "nat \<Rightarrow> string" where
  "str_nat n = (if n < 10 then [digit_char n] else str_nat (n div 10) @ [digit_char (n mod 10)])"

declare str_nat.simps [simp del]

definition py_str :: "int \<Rightarrow> string" where
  "py_str i = (if i < 0 then CHR ''-'' # str_nat (nat (- i)) else str_nat (nat i))"

text \<open>
  The inner loop "Collect all parts of the citation": the entries up to and including
  the first one whose word holds a closing parenthesis, and the entries after it;
  \<open>None\<close> when the loop runs off the end of the sequence.
\<close>

fun collect_citation_parts :: "timing list \<Rightarrow> (timing list \<times> timing list) option" where
  "collect_citation_parts [] = None"
| "collect_citation_parts (t # rest) =
     (if CHR '')'' \<in> set (t_word t) then Some ([t], rest)
      else (case collect_citation_parts rest of
              None \<Rightarrow> None
            | Some (citation_parts, remaining) \<Rightarrow> Some (t # citation_parts, remaining)))"

text \<open>
  The block "Check if this word is part of a citation" at the entry \<open>t\<close> the scan stands
  on: the merged entry it appends and the entries the scan continues with, or \<open>None\<close>
  when the block falls through to the handling of the single word.
\<close>

definition merge_citation :: "timing \<Rightarrow> timing list \<Rightarrow> (timing \<times> timing list) option" where
  "merge_citation t rest =
     (if CHR ''('' \<in> set (t_word t) then
        (case collect_citation_parts (t # rest) of
           None \<Rightarrow> None
         | Some (citation_parts, remaining) \<Rightarrow>
             (let citation_text = join_space (map t_word citation_parts) in
              if citation_pattern_search citation_text
              then Some ((citation_text, t_start t, t_end (last citation_parts)), remaining)
              else None))
      else None)"

text \<open>The block "Handle verse references and numbers" for one entry.\<close>

definition expand_word :: "timing \<Rightarrow> error + timing list" where
  "expand_word t =
     (case t of (word, start_time, end_time) \<Rightarrow>
        if verse_reference_pattern_match word then
          (let duration = end_time - start_time; parts = split_on CHR '':'' word in
           and_then (list_get parts 1) (\<lambda>second.
             if CHR ''-'' \<in> set second then
               and_then (list_get parts 0) (\<lambda>chapter.
               and_then (list_get parts 1) (\<lambda>verse_range.
                 (let chapter_duration = duration * 0.6 in
                  Inr [(chapter, start_time, start_time + chapter_duration),
                       (verse_range, start_time + chapter_duration, end_time)])))
             else
               and_then (list_get parts 0) (\<lambda>chapter.
               and_then (list_get parts 1) (\<lambda>verse.
                 (let chapter_duration = duration * 0.6 in
                  Inr [(chapter, start_time, start_time + chapter_duration),
                       (verse, start_time + chapter_duration, end_time)])))))
        else if numeric_pattern_match word \<and> length word > 1 then
          (let duration = end_time - start_time; num = py_int (py_float word) in
           if 20 < num \<and> num < 100 then
             (let tens_digit = num div 10; ones_digit = num mod 10;
                  first_duration = duration * 0.6;
                  tens = (py_str tens_digit @ ''0'', start_time, start_time + first_duration)
              in if ones_digit > 0
                 then Inr [tens, (py_str ones_digit, start_time + first_duration, end_time)]
                 else Inr [(t_word tens, t_start tens, end_time)])
           else Inr [(word, start_time, end_time)])
        else Inr [(word, start_time, end_time)])"

lemma collect_citation_parts_shorter:
  "collect_citation_parts ts = Some (citation_parts, remaining) \<Longrightarrow>
   length remaining < length ts"
  by (induction ts arbitrary: citation_parts) (auto split: if_splits option.splits)

lemma merge_citation_shorter:
  "merge_citation t rest = Some (citation, remaining) \<Longrightarrow> length remaining < Suc (length rest)"
  by (auto simp: merge_citation_def Let_def split: if_splits option.splits
      dest: collect_citation_parts_shorter)

text \<open>The outer loop: \<open>i\<close> stands on the head of the list of entries still to be read.\<close>

function expand_numeric_references :: "timing list \<Rightarrow> error + timing list" where
  "expand_numeric_references [] = Inr []"
| "expand_numeric_references (t # rest) =
     (case merge_citation t rest of
        Some (citation, remaining) \<Rightarrow>
          and_then (expand_numeric_references remaining) (\<lambda>expanded. Inr (citation # expanded))
      | None \<Rightarrow>
          and_then (expand_word t) (\<lambda>tokens.
          and_then (expand_numeric_references rest) (\<lambda>expanded. Inr (tokens @ expanded))))"
  by pat_completeness auto
termination
  by (relation "measure length") (auto dest: merge_citation_shorter)

subsection \<open>The corrector: \<^verbatim>\<open>_fix_reference_order\<close>\<close>

lemma citation_match_at_shorter:
  "citation_match_at s = Some (m, after) \<Longrightarrow> length after < length s"
proof -
  assume a: "citation_match_at s = Some (m, after)"
  then obtain c r where s: "s = c # r" by (cases s) (auto simp: citation_match_at_def)
  from a s have "after = tl (dropWhile (\<lambda>x. x \<noteq> CHR '')'') r)"
    by (auto simp: citation_match_at_def Let_def split: if_splits)
  moreover have "length (dropWhile (\<lambda>x. x \<noteq> CHR '')'') r) \<le> length r"
    by (rule length_dropWhile_le)
  ultimately show ?thesis using s by simp
qed

text \<open>
  \<^verbatim>\<open>re.findall(r'\([^)]*\d+:\d+[^)]*\)', original_text)\<close>: the matches from left to
  right, each search starting where the previous match ended.
\<close>

function citation_pattern_findall :: "string \<Rightarrow> string list" where
  "citation_pattern_findall [] = []"
| "citation_pattern_findall (c # r) =
     (case citation_match_at (c # r) of
        Some (m, after) \<Rightarrow> m # citation_pattern_findall after
      | None \<Rightarrow> citation_pattern_findall r)"
  by pat_completeness auto
termination
  by (relation "measure length") (auto dest: citation_match_at_shorter)

text \<open>\<^verbatim>\<open>s.strip()\<close>, \<^verbatim>\<open>s.strip('(')\<close>, \<^verbatim>\<open>s.startswith(p)\<close>, \<^verbatim>\<open>s.endswith(p)\<close>.\<close>

definition py_strip :: "string \<Rightarrow> string" where
  "py_strip s = rev (dropWhile is_space (rev (dropWhile is_space s)))"

definition strip_chars :: "char \<Rightarrow> string \<Rightarrow> string" where
  "strip_chars c s = rev (dropWhile (\<lambda>x. x = c) (rev (dropWhile (\<lambda>x. x = c) s)))"

definition startswith :: "string \<Rightarrow> string \<Rightarrow> bool" where
  "startswith s p = (take (length p) s = p)"

definition endswith :: "string \<Rightarrow> string \<Rightarrow> bool" where
  "endswith s p = (length p \<le> length s \<and> drop (length s - length p) s = p)"

text \<open>\<^verbatim>\<open>s.find(sub)\<close>: the least index where \<open>sub\<close> starts in \<open>s\<close>, or \<open>-1\<close>.\<close>

fun find_index :: "string \<Rightarrow> string \<Rightarrow> nat option" where
  "find_index sub [] = (if sub = [] then Some 0 else None)"
| "find_index sub (c # s) =
     (if startswith (c # s) sub then Some 0 else map_option Suc (find_index sub s))"

definition py_find :: "string \<Rightarrow> string \<Rightarrow> int" where
  "py_find s sub = (case find_index sub s of None \<Rightarrow> - 1 | Some i \<Rightarrow> int i)"

text \<open>
  The loop "Look for parts of the reference in the words". Its state is
  \<^verbatim>\<open>ref_start\<close> (\<open>-1\<close> until a word at an index above 0 starts with the fragment);
  \<^verbatim>\<open>ref_end\<close> is set in the iteration that leaves the loop, so the result is the pair
  \<^verbatim>\<open>(ref_start, ref_end)\<close> after the loop.
\<close>

fun locate_reference :: "string \<Rightarrow> nat \<Rightarrow> int \<Rightarrow> string list \<Rightarrow> int \<times> int" where
  "locate_reference fragment i ref_start [] = (ref_start, - 1)"
| "locate_reference fragment i ref_start (word # words) =
     (let ref_start' =
            (if i > 0 \<and> ref_start = - 1 \<and> startswith word fragment then int i else ref_start)
      in if ref_start' \<noteq> - 1 then
           (if endswith word '')'' \<or> CHR '')'' \<in> set word then (ref_start', int i)
            else locate_reference fragment (Suc i) ref_start' words)
         else locate_reference fragment (Suc i) ref_start' words)"

text \<open>
  The body of the \<^verbatim>\<open>try\<close> block for one reference: the reordered sequence it
  returns, or \<open>None\<close> when it returns nothing and the loop over the references goes on.
  No operation in the block can raise.
\<close>

definition relocate_reference ::
  "string \<Rightarrow> timing list \<Rightarrow> string \<Rightarrow> string \<Rightarrow> timing list option" where
  "relocate_reference original_text word_timings ref fragment =
     (let ref_pos_in_text = py_find original_text ref in
      if ref_pos_in_text > 0 then
        (let words_before_ref = split_ws (take (nat ref_pos_in_text) original_text);
             target_position = length words_before_ref;
             (ref_start, ref_end) = locate_reference fragment 0 (- 1) (map t_word word_timings)
         in if ref_start \<noteq> - 1 \<and> ref_end \<noteq> - 1 then
              (let ref_timings = drop (nat ref_start) (take (nat ref_end + 1) word_timings);
                   new_timings = take (nat ref_start) word_timings
                                 @ drop (nat ref_end + 1) word_timings;
                   target_position = min target_position (length new_timings)
               in Some (take target_position new_timings @ ref_timings
                        @ drop target_position new_timings))
            else None)
      else None)"

text \<open>
  The loop over \<^verbatim>\<open>parenthetical_refs\<close>. The test of the \<^verbatim>\<open>if\<close> reads
  \<^verbatim>\<open>ref_parts[0]\<close> once a word of \<^verbatim>\<open>words[:3]\<close> is looked at, outside the
  \<^verbatim>\<open>try\<close> block.
\<close>

fun fix_references :: "string \<Rightarrow> timing list \<Rightarrow> string list \<Rightarrow> error + timing list" where
  "fix_references original_text word_timings [] = Inr word_timings"
| "fix_references original_text word_timings (ref # refs) =
     (let words = map t_word word_timings; ref_parts = split_ws ref in
      if take 3 words = [] then fix_references original_text word_timings refs
      else
        and_then (list_get ref_parts 0) (\<lambda>first_part.
          if list_ex (\<lambda>word. startswith word (strip_chars CHR ''('' first_part)) (take 3 words)
             \<and> \<not> startswith (py_strip original_text) first_part
          then (case relocate_reference original_text word_timings ref
                       (strip_chars CHR ''('' first_part) of
                  Some reordered_timings \<Rightarrow> Inr reordered_timings
                | None \<Rightarrow> fix_references original_text word_timings refs)
          else fix_references original_text word_timings refs))"

definition fix_reference_order :: "string \<Rightarrow> timing list \<Rightarrow> error + timing list" where
  "fix_reference_order original_text word_timings =
     (let parenthetical_refs = citation_pattern_findall original_text in
      if parenthetical_refs = [] then Inr word_timings
      else fix_references original_text word_timings parenthetical_refs)"

subsection \<open>Notions the statements below use\<close>

text \<open>A sequence tiles its timeline: every entry starts where the one before it ends.\<close>

fun contiguous :: "timing list \<Rightarrow> bool" where
  "contiguous [] = True"
| "contiguous [a] = True"
| "contiguous (a # b # r) = (t_end a = t_start b \<and> contiguous (b # r))"

text \<open>
  The token classes and weights in the words of the specification (section 4.1, step 2),
  to be compared with \<open>word_length_factor\<close>. \<open>digit_run\<close> is \<^verbatim>\<open>\d+\<close>; the two
  patterns are read as descriptions of the whole token.
\<close>

definition digit_run :: "string \<Rightarrow> bool" where
  "digit_run ds = (ds \<noteq> [] \<and> list_all is_digit ds)"

definition spec_verse_reference :: "string \<Rightarrow> bool" where
  "spec_verse_reference token =
     (\<exists>a b. digit_run a \<and> digit_run b \<and>
        (token = a @ '':'' @ b \<or> (\<exists>c. digit_run c \<and> token = a @ '':'' @ b @ ''-'' @ c)))"

definition spec_standalone_numeral :: "string \<Rightarrow> bool" where
  "spec_standalone_numeral token =
     (\<exists>a. digit_run a \<and> (token = a \<or> (\<exists>b. digit_run b \<and> token = a @ ''.'' @ b)))"

definition clamp :: "real \<Rightarrow> real \<Rightarrow> real \<Rightarrow> real" where
  "clamp lo hi x = (if x < lo then lo else if hi < x then hi else x)"

definition spec_weight :: "string \<Rightarrow> real" where
  "spec_weight token =
     (if spec_verse_reference token then clamp 0.5 4.0 ((real (length token) / 5) * 3.0)
      else if spec_standalone_numeral token then clamp 0.5 3.0 ((real (length token) / 5) * 2.0)
      else clamp 0.5 2.0 (real (length token) / 5))"

text \<open>A word the first pass of the estimator counts as a special case.\<close>

definition special_case :: "string \<Rightarrow> bool" where
  "special_case word = (verse_reference_pattern_match word \<or> numeric_pattern_match word)"

text \<open>
  The citation shape in the words of the specification (section 4.2): the text contains
  a \<^verbatim>\<open><digits>:<digits>\<close> pattern inside parentheses, that is, between an opening
  parenthesis and the first closing parenthesis after it.
\<close>

definition citation_shape :: "string \<Rightarrow> bool" where
  "citation_shape s =
     (\<exists>pre u a b v post.
        s = pre @ ''('' @ u @ a @ '':'' @ b @ v @ '')'' @ post \<and>
        CHR '')'' \<notin> set u \<and> CHR '')'' \<notin> set v \<and> digit_run a \<and> digit_run b)"

section \<open>Properties\<close>

subsection \<open>Basic facts\<close>

lemma t_word_simp [simp]: "t_word (w, s, e) = w"
  by (simp add: t_word_def)

lemma t_start_simp [simp]: "t_start (w, s, e) = s"
  by (simp add: t_start_def)

lemma t_end_simp [simp]: "t_end (w, s, e) = e"
  by (simp add: t_end_def)

lemma and_then_Inr [simp]: "and_then (Inr v) f = f v"
  by (simp add: and_then_def)

lemma and_then_Inl [simp]: "and_then (Inl e) f = Inl e"
  by (simp add: and_then_def)

subsection \<open>The matchers decide the regular expressions\<close>

text \<open>
  Each matcher accepts exactly the words its regular expression describes: a run of
  digits, the separators, and at the end what \<^verbatim>\<open>$\<close> allows (nothing, or one newline).
\<close>

lemma is_digit_not_sep [simp]:
  "\<not> is_digit CHR '':''" "\<not> is_digit CHR ''-''" "\<not> is_digit CHR ''.''" "\<not> is_digit CHR 0x0A"
  by (simp_all add: is_digit_def)

lemma digit_run_take:
  "digit_run a \<Longrightarrow> r = [] \<or> \<not> is_digit (hd r) \<Longrightarrow> takeWhile is_digit (a @ r) = a"
  by (cases r) (auto simp: digit_run_def list_all_iff takeWhile_tail)

lemma digit_run_drop:
  "digit_run a \<Longrightarrow> r = [] \<or> \<not> is_digit (hd r) \<Longrightarrow> dropWhile is_digit (a @ r) = r"
  by (cases r) (auto simp: digit_run_def list_all_iff dropWhile_append2)

lemma takeWhile_digit_run:
  "takeWhile is_digit w \<noteq> [] \<Longrightarrow> digit_run (takeWhile is_digit w)"
  by (auto simp: digit_run_def list_all_iff dest: set_takeWhileD)

lemma at_dollar_cases: "at_dollar nl \<Longrightarrow> nl = [] \<or> \<not> is_digit (hd nl)"
  by (auto simp: at_dollar_def)

lemma numeric_pattern_match_intro1:
  "digit_run a \<Longrightarrow> at_dollar nl \<Longrightarrow> numeric_pattern_match (a @ nl)"
  using digit_run_take [of a nl] digit_run_drop [of a nl] at_dollar_cases [of nl]
  by (auto simp: numeric_pattern_match_def Let_def digit_run_def)

lemma numeric_pattern_match_intro2:
  assumes "digit_run a" "digit_run b" "at_dollar nl"
  shows "numeric_pattern_match (a @ ''.'' @ b @ nl)"
proof -
  have 1: "takeWhile is_digit (a @ ''.'' @ b @ nl) = a"
    and 2: "dropWhile is_digit (a @ ''.'' @ b @ nl) = ''.'' @ b @ nl"
    using digit_run_take [OF assms(1), of "''.'' @ b @ nl"]
      digit_run_drop [OF assms(1), of "''.'' @ b @ nl"] by simp_all
  have 3: "takeWhile is_digit (b @ nl) = b" and 4: "dropWhile is_digit (b @ nl) = nl"
    using digit_run_take [OF assms(2), of nl] digit_run_drop [OF assms(2), of nl]
      at_dollar_cases [OF assms(3)] by simp_all
  show ?thesis
    using assms 1 2 3 4 by (simp add: numeric_pattern_match_def Let_def digit_run_def)
qed

lemma numeric_pattern_match_elim:
  assumes "numeric_pattern_match w"
  shows "\<exists>a nl. digit_run a \<and> at_dollar nl \<and>
           (w = a @ nl \<or> (\<exists>b. digit_run b \<and> w = a @ ''.'' @ b @ nl))"
proof -
  define a where "a = takeWhile is_digit w"
  define r1 where "r1 = dropWhile is_digit w"
  have w: "w = a @ r1" by (simp add: a_def r1_def)
  have a: "digit_run a" using assms
    by (auto simp: numeric_pattern_match_def Let_def a_def intro: takeWhile_digit_run)
  show ?thesis
  proof (cases "at_dollar r1")
    case True
    then show ?thesis using a w by blast
  next
    case False
    then obtain r2 where r1: "r1 = CHR ''.'' # r2" and b: "takeWhile is_digit r2 \<noteq> []"
        and nl: "at_dollar (dropWhile is_digit r2)"
      using assms by (auto simp: numeric_pattern_match_def Let_def r1_def split: list.splits)
    have "w = a @ ''.'' @ takeWhile is_digit r2 @ dropWhile is_digit r2"
      using w r1 by simp
    then show ?thesis using a nl takeWhile_digit_run [OF b] by blast
  qed
qed

lemma verse_reference_pattern_match_intro1:
  assumes "digit_run a" "digit_run b" "at_dollar nl"
  shows "verse_reference_pattern_match (a @ '':'' @ b @ nl)"
proof -
  have 1: "takeWhile is_digit (a @ '':'' @ b @ nl) = a"
    and 2: "dropWhile is_digit (a @ '':'' @ b @ nl) = '':'' @ b @ nl"
    using digit_run_take [OF assms(1), of "'':'' @ b @ nl"]
      digit_run_drop [OF assms(1), of "'':'' @ b @ nl"] by simp_all
  have 3: "takeWhile is_digit (b @ nl) = b" and 4: "dropWhile is_digit (b @ nl) = nl"
    using digit_run_take [OF assms(2), of nl] digit_run_drop [OF assms(2), of nl]
      at_dollar_cases [OF assms(3)] by simp_all
  show ?thesis
    using assms 1 2 3 4 by (simp add: verse_reference_pattern_match_def Let_def digit_run_def)
qed

lemma verse_reference_pattern_match_intro2:
  assumes "digit_run a" "digit_run b" "digit_run c" "at_dollar nl"
  shows "verse_reference_pattern_match (a @ '':'' @ b @ ''-'' @ c @ nl)"
proof -
  have 1: "takeWhile is_digit (a @ '':'' @ b @ ''-'' @ c @ nl) = a"
    and 2: "dropWhile is_digit (a @ '':'' @ b @ ''-'' @ c @ nl) = '':'' @ b @ ''-'' @ c @ nl"
    using digit_run_take [OF assms(1), of "'':'' @ b @ ''-'' @ c @ nl"]
      digit_run_drop [OF assms(1), of "'':'' @ b @ ''-'' @ c @ nl"] by simp_all
  have 3: "takeWhile is_digit (b @ ''-'' @ c @ nl) = b"
    and 4: "dropWhile is_digit (b @ ''-'' @ c @ nl) = ''-'' @ c @ nl"
    using digit_run_take [OF assms(2), of "''-'' @ c @ nl"]
      digit_run_drop [OF assms(2), of "''-'' @ c @ nl"] by simp_all
  have 5: "takeWhile is_digit (c @ nl) = c" and 6: "dropWhile is_digit (c @ nl) = nl"
    using digit_run_take [OF assms(3), of nl] digit_run_drop [OF assms(3), of nl]
      at_dollar_cases [OF assms(4)] by simp_all
  show ?thesis
    using assms 1 2 3 4 5 6
    by (simp add: verse_reference_pattern_match_def Let_def digit_run_def)
qed

lemma verse_reference_pattern_match_elim:
  assumes "verse_reference_pattern_match w"
  shows "\<exists>a b nl. digit_run a \<and> digit_run b \<and> at_dollar nl \<and>
           (w = a @ '':'' @ b @ nl \<or> (\<exists>c. digit_run c \<and> w = a @ '':'' @ b @ ''-'' @ c @ nl))"
proof -
  define a where "a = takeWhile is_digit w"
  define r1 where "r1 = dropWhile is_digit w"
  have w: "w = a @ r1" by (simp add: a_def r1_def)
  from assms have a: "digit_run a"
    by (auto simp: verse_reference_pattern_match_def Let_def a_def intro: takeWhile_digit_run)
  from assms obtain r2 where r1: "r1 = CHR '':'' # r2"
    by (auto simp: verse_reference_pattern_match_def Let_def r1_def split: list.splits)
  define b where "b = takeWhile is_digit r2"
  define r3 where "r3 = dropWhile is_digit r2"
  have r2: "r2 = b @ r3" by (simp add: b_def r3_def)
  from assms r1 have b0: "b \<noteq> []"
    and rest: "at_dollar r3 \<or> (\<exists>r4. r3 = CHR ''-'' # r4 \<and> takeWhile is_digit r4 \<noteq> []
                 \<and> at_dollar (dropWhile is_digit r4))"
    by (auto simp: verse_reference_pattern_match_def Let_def r1_def [symmetric] b_def r3_def
        split: list.splits)
  have b: "digit_run b" using b0 unfolding b_def by (rule takeWhile_digit_run)
  from rest show ?thesis
  proof
    assume "at_dollar r3"
    moreover have "w = a @ '':'' @ b @ r3" using w r1 r2 by simp
    ultimately show ?thesis using a b by blast
  next
    assume "\<exists>r4. r3 = CHR ''-'' # r4 \<and> takeWhile is_digit r4 \<noteq> []
                 \<and> at_dollar (dropWhile is_digit r4)"
    then obtain r4 where r3: "r3 = CHR ''-'' # r4" and c: "takeWhile is_digit r4 \<noteq> []"
      and nl: "at_dollar (dropWhile is_digit r4)" by blast
    have "w = a @ '':'' @ b @ ''-'' @ takeWhile is_digit r4 @ dropWhile is_digit r4"
      using w r1 r2 r3 by simp
    then show ?thesis using a b nl takeWhile_digit_run [OF c] by blast
  qed
qed

text \<open>The tokens of \<^verbatim>\<open>text.split()\<close> are not empty and hold no whitespace.\<close>

lemma split_from_tokens:
  "token \<in> set (split_from cur s) \<Longrightarrow> list_all (\<lambda>c. \<not> is_space c) cur \<Longrightarrow>
   token \<noteq> [] \<and> list_all (\<lambda>c. \<not> is_space c) token"
  by (induction cur s rule: split_from.induct) (auto split: if_splits)

lemma split_ws_tokens:
  "token \<in> set (split_ws s) \<Longrightarrow> token \<noteq> [] \<and> list_all (\<lambda>c. \<not> is_space c) token"
  using split_from_tokens [of token "[]" s] by (simp add: split_ws_def)

lemma newline_is_space: "is_space (CHR 0x0A)"
  by (simp add: is_space_def)

lemma no_space_dollar:
  "list_all (\<lambda>c. \<not> is_space c) (xs @ nl) \<Longrightarrow> at_dollar nl \<Longrightarrow> nl = []"
  by (auto simp: at_dollar_def newline_is_space)

text \<open>On such tokens the matchers agree with the specification's token classes.\<close>

lemma verse_reference_is_spec:
  assumes "list_all (\<lambda>c. \<not> is_space c) token"
  shows "verse_reference_pattern_match token = spec_verse_reference token"
proof
  assume "verse_reference_pattern_match token"
  then obtain a b nl where ab: "digit_run a" "digit_run b" "at_dollar nl"
    and w: "token = a @ '':'' @ b @ nl \<or> (\<exists>c. digit_run c \<and> token = a @ '':'' @ b @ ''-'' @ c @ nl)"
    using verse_reference_pattern_match_elim by blast
  from w show "spec_verse_reference token"
  proof
    assume t: "token = a @ '':'' @ b @ nl"
    then have "nl = []" using assms ab(3) no_space_dollar [of "a @ '':'' @ b" nl] by simp
    then show ?thesis using t ab unfolding spec_verse_reference_def by auto
  next
    assume "\<exists>c. digit_run c \<and> token = a @ '':'' @ b @ ''-'' @ c @ nl"
    then obtain c where c: "digit_run c" and t: "token = a @ '':'' @ b @ ''-'' @ c @ nl" by blast
    then have "nl = []"
      using assms ab(3) no_space_dollar [of "a @ '':'' @ b @ ''-'' @ c" nl] by simp
    then show ?thesis using t ab c unfolding spec_verse_reference_def by auto
  qed
next
  assume "spec_verse_reference token"
  then show "verse_reference_pattern_match token"
    unfolding spec_verse_reference_def
    using verse_reference_pattern_match_intro1 [of _ _ "[]"]
      verse_reference_pattern_match_intro2 [of _ _ _ "[]"]
    by (auto simp: at_dollar_def)
qed

lemma numeric_is_spec:
  assumes "list_all (\<lambda>c. \<not> is_space c) token"
  shows "numeric_pattern_match token = spec_standalone_numeral token"
proof
  assume "numeric_pattern_match token"
  then obtain a nl where ab: "digit_run a" "at_dollar nl"
    and w: "token = a @ nl \<or> (\<exists>b. digit_run b \<and> token = a @ ''.'' @ b @ nl)"
    using numeric_pattern_match_elim by blast
  from w show "spec_standalone_numeral token"
  proof
    assume t: "token = a @ nl"
    then have "nl = []" using assms ab(2) no_space_dollar [of a nl] by simp
    then show ?thesis using t ab unfolding spec_standalone_numeral_def by auto
  next
    assume "\<exists>b. digit_run b \<and> token = a @ ''.'' @ b @ nl"
    then obtain b where b: "digit_run b" and t: "token = a @ ''.'' @ b @ nl" by blast
    then have "nl = []" using assms ab(2) no_space_dollar [of "a @ ''.'' @ b" nl] by simp
    then show ?thesis using t ab b unfolding spec_standalone_numeral_def by auto
  qed
next
  assume "spec_standalone_numeral token"
  then show "numeric_pattern_match token"
    unfolding spec_standalone_numeral_def
    using numeric_pattern_match_intro1 [of _ "[]"] numeric_pattern_match_intro2 [of _ _ "[]"]
    by (auto simp: at_dollar_def)
qed

lemma clamp_max_min: "lo \<le> hi \<Longrightarrow> max lo (min hi x) = clamp lo hi x"
  by (simp add: clamp_def max_def min_def)

lemma word_length_factor_is_spec_weight:
  assumes "list_all (\<lambda>c. \<not> is_space c) token"
  shows "word_length_factor token = spec_weight token"
  using verse_reference_is_spec [OF assms] numeric_is_spec [OF assms]
  by (simp add: word_length_factor_def spec_weight_def Let_def clamp_max_min)

subsection \<open>The estimator\<close>

lemma word_length_factor_bounds: "1/2 \<le> word_length_factor w \<and> word_length_factor w \<le> 4"
  by (simp add: word_length_factor_def Let_def max_def min_def)

lemma word_length_factor_pos: "0 < word_length_factor w"
  using word_length_factor_bounds [of w] by linarith

lemma contiguous_nth:
  "contiguous ts \<Longrightarrow> Suc i < length ts \<Longrightarrow> t_start (ts ! Suc i) = t_end (ts ! i)"
proof (induction ts arbitrary: i rule: contiguous.induct)
  case (3 a b r)
  then show ?case by (cases i) auto
qed auto

lemma assign_timings_ok:
  "length ds = length ws \<Longrightarrow>
   \<exists>ts. assign_timings t ws ds = Inr ts \<and> map t_word ts = ws \<and>
        map (\<lambda>x. t_end x - t_start x) ts = ds \<and> contiguous ts \<and>
        (ts \<noteq> [] \<longrightarrow> t_start (hd ts) = t \<and> t_end (last ts) = t + sum_list ds)"
proof (induction t ws ds rule: assign_timings.induct)
  case (1 t ds)
  then show ?case by simp
next
  case (2 t w ws)
  then show ?case by simp
next
  case (3 t w ws d ds)
  then obtain ts where ts: "assign_timings (t + d) ws ds = Inr ts" "map t_word ts = ws"
      "map (\<lambda>x. t_end x - t_start x) ts = ds" "contiguous ts"
      "ts \<noteq> [] \<longrightarrow> t_start (hd ts) = t + d \<and> t_end (last ts) = t + d + sum_list ds"
    by auto
  show ?case
  proof (cases ts)
    case Nil
    with ts show ?thesis by simp
  next
    case (Cons a r)
    with ts show ?thesis by auto
  qed
qed

lemma initial_durations_pos:
  "0 < avg \<Longrightarrow> x \<in> set (initial_durations ws avg) \<Longrightarrow> 0 < x"
  by (auto simp: initial_durations_def word_length_factor_pos)

lemma sum_list_pos_real:
  fixes ds :: "real list"
  shows "ds \<noteq> [] \<Longrightarrow> (\<And>x. x \<in> set ds \<Longrightarrow> 0 < x) \<Longrightarrow> 0 < sum_list ds"
  by (induction ds) (auto intro: add_pos_nonneg sum_list_nonneg less_imp_le)

lemma adjust_durations_ok:
  assumes "0 < duration" and "\<And>x. x \<in> set ds \<Longrightarrow> 0 < x"
  shows "\<exists>ds'. adjust_durations ws duration ds = Inr ds' \<and> length ds' = length ds \<and>
           (\<forall>x \<in> set ds'. 0 < x)"
proof (cases "special_case_indices ws \<noteq> [] \<and> length ws > length (special_case_indices ws)
    \<and> sum_list ds > duration")
  case True
  then have pos: "0 < sum_list ds" using assms(1) by linarith
  define sf where "sf = duration / sum_list ds"
  have "adjust_durations ws duration ds = Inr (map (\<lambda>d. d * sf) ds)"
    using True pos by (simp add: adjust_durations_def py_truediv_def sf_def)
  moreover have "0 < sf" using pos assms(1) by (simp add: sf_def)
  ultimately show ?thesis using assms(2) by auto
next
  case False
  then have "adjust_durations ws duration ds = Inr ds"
    by (auto simp: adjust_durations_def Let_def)
  then show ?thesis using assms(2) by auto
qed

lemma scaled_timing_simps [simp]:
  "t_word ((\<lambda>(word, start, end). (word, start * sf, end * sf)) x) = t_word x"
  "t_start ((\<lambda>(word, start, end). (word, start * sf, end * sf)) x) = t_start x * sf"
  "t_end ((\<lambda>(word, start, end). (word, start * sf, end * sf)) x) = t_end x * sf"
  by (cases x; simp)+

lemma contiguous_map_scale:
  "contiguous ts \<Longrightarrow>
   contiguous (map (\<lambda>(word, start, end). (word, start * sf, end * sf)) ts)"
  by (induction ts rule: contiguous.induct) simp_all

lemma normalize_timings_ok:
  assumes "ts \<noteq> []" and "0 < duration" and "0 < t_end (last ts)"
    and "contiguous ts" and "t_start (hd ts) = 0"
    and "\<And>x. x \<in> set ts \<Longrightarrow> t_start x < t_end x"
  shows "\<exists>ts'. normalize_timings duration ts = Inr ts' \<and> ts' \<noteq> [] \<and>
           map t_word ts' = map t_word ts \<and> contiguous ts' \<and>
           t_start (hd ts') = 0 \<and> \<bar>t_end (last ts') - duration\<bar> \<le> 0.01 \<and>
           (\<forall>x \<in> set ts'. t_start x < t_end x)"
proof (cases "\<bar>t_end (last ts) - duration\<bar> > 0.01")
  case True
  define sf where "sf = duration / t_end (last ts)"
  define ts' where "ts' = map (\<lambda>(word, start, end). (word, start * sf, end * sf)) ts"
  have sf: "0 < sf" using assms(2,3) by (simp add: sf_def)
  have run: "normalize_timings duration ts = Inr ts'"
    using True assms(1,3) by (simp add: normalize_timings_def Let_def py_truediv_def sf_def ts'_def)
  have "t_end (last ts') = t_end (last ts) * sf"
    using assms(1) by (simp add: ts'_def last_map)
  also have "\<dots> = duration" using assms(3) by (simp add: sf_def)
  finally have fin: "t_end (last ts') = duration" .
  have "t_start (hd ts') = 0" using assms(1,5) by (simp add: ts'_def hd_map)
  moreover have "contiguous ts'" using assms(4) by (simp add: ts'_def contiguous_map_scale)
  moreover have "\<forall>x \<in> set ts'. t_start x < t_end x"
    using assms(6) sf by (auto simp: ts'_def)
  moreover have "map t_word ts' = map t_word ts" by (simp add: ts'_def comp_def)
  ultimately show ?thesis using run fin assms(1) by (auto simp: ts'_def)
next
  case False
  then have "normalize_timings duration ts = Inr ts"
    by (simp add: normalize_timings_def Let_def)
  then show ?thesis using assms False by auto
qed

lemma estimate_before_normalize:
  assumes "split_ws text \<noteq> []" and "0 < duration"
  shows "\<exists>ts. generate_approximate_word_timings text duration = normalize_timings duration ts \<and>
           ts \<noteq> [] \<and> map t_word ts = split_ws text \<and> 0 < t_end (last ts) \<and> contiguous ts \<and>
           t_start (hd ts) = 0 \<and> (\<forall>x \<in> set ts. t_start x < t_end x)"
proof -
  define ws where "ws = split_ws text"
  define avg where "avg = duration / real (length ws)"
  have ws: "ws \<noteq> []" using assms(1) by (simp add: ws_def)
  then have avg: "0 < avg" using assms(2) by (simp add: avg_def)
  have div: "py_truediv duration (real (length ws)) = Inr avg"
    using ws by (simp add: py_truediv_def avg_def)
  obtain ds where ds: "adjust_durations ws duration (initial_durations ws avg) = Inr ds"
      "length ds = length ws" "\<forall>x \<in> set ds. 0 < x"
    using adjust_durations_ok [OF assms(2), of "initial_durations ws avg" ws]
      initial_durations_pos [OF avg]
    by (auto simp: initial_durations_def)
  obtain ts where ts: "assign_timings 0 ws ds = Inr ts" "map t_word ts = ws"
      "map (\<lambda>x. t_end x - t_start x) ts = ds" "contiguous ts"
      "ts \<noteq> [] \<longrightarrow> t_start (hd ts) = 0 \<and> t_end (last ts) = 0 + sum_list ds"
    using assign_timings_ok [OF ds(2), of 0] by blast
  have ne: "ts \<noteq> []" using ts(2) ws by auto
  have "ds \<noteq> []" using ds(2) ws by auto
  then have "0 < sum_list ds" using ds(3) by (intro sum_list_pos_real) auto
  then have last: "0 < t_end (last ts)" using ts(5) ne by simp
  have pos: "\<forall>x \<in> set ts. t_start x < t_end x"
  proof
    fix x assume "x \<in> set ts"
    then have "t_end x - t_start x \<in> set ds" using ts(3) by force
    then show "t_start x < t_end x" using ds(3) by force
  qed
  have "generate_approximate_word_timings text duration = normalize_timings duration ts"
    using ws div ds(1) ts(1)
    by (simp add: generate_approximate_word_timings_def Let_def ws_def [symmetric])
  then show ?thesis using ne ts last pos by (auto simp: ws_def)
qed

lemma length_special_case_indices:
  "length (special_case_indices words) = length (filter special_case words)"
proof -
  have "filter special_case words = filter special_case (map (\<lambda>i. words ! i) [0..<length words])"
    by (simp add: map_nth)
  also have "\<dots> = map (\<lambda>i. words ! i) (special_case_indices words)"
    by (simp add: filter_map special_case_indices_def special_case_def comp_def)
  finally show ?thesis by simp
qed

lemma special_case_indices_nonempty:
  "special_case_indices words \<noteq> [] \<longleftrightarrow> list_ex special_case words"
proof -
  have "special_case_indices words \<noteq> [] \<longleftrightarrow> filter special_case words \<noteq> []"
    using length_special_case_indices [of words] by (metis length_0_conv)
  then show ?thesis by (auto simp: list_ex_iff filter_empty_conv)
qed

lemma special_case_indices_fewer:
  "length words > length (special_case_indices words) \<longleftrightarrow>
   list_ex (\<lambda>w. \<not> special_case w) words"
proof -
  have "length (filter special_case words) < length words \<longleftrightarrow> (\<exists>w \<in> set words. \<not> special_case w)"
    using length_filter_less [of _ words special_case] length_filter_le [of special_case words]
      filter_id_conv [of special_case words] by (metis nat_less_le)
  then show ?thesis by (simp add: length_special_case_indices list_ex_iff)
qed

lemma adjust_durations_eq:
  assumes "0 < duration"
  shows "adjust_durations words duration raw =
     Inr (if list_ex special_case words \<and> list_ex (\<lambda>w. \<not> special_case w) words
             \<and> duration < sum_list raw
          then map (\<lambda>d. d * (duration / sum_list raw)) raw else raw)"
  using assms special_case_indices_nonempty [of words] special_case_indices_fewer [of words]
  by (auto simp: adjust_durations_def Let_def py_truediv_def)

text \<open>
  Claim C2 (spanning invariant). For a text with at least one token and a positive total
  duration, the estimator returns a sequence whose first entry starts at 0 and whose last
  entry ends within 0.01 of the total duration.
\<close>

theorem estimate_spans_duration:
  assumes "split_ws text \<noteq> []" and "0 < duration"
  shows "\<exists>ts. generate_approximate_word_timings text duration = Inr ts \<and> ts \<noteq> [] \<and>
           t_start (hd ts) = 0 \<and> \<bar>t_end (last ts) - duration\<bar> \<le> 0.01"
proof -
  obtain ts where ts: "generate_approximate_word_timings text duration = normalize_timings duration ts"
      "ts \<noteq> []" "0 < t_end (last ts)" "contiguous ts" "t_start (hd ts) = 0"
      "\<forall>x \<in> set ts. t_start x < t_end x"
    using estimate_before_normalize [OF assms] by blast
  from normalize_timings_ok [OF ts(2) assms(2) ts(3) ts(4) ts(5)] ts(6) ts(1)
  show ?thesis by force
qed

theorem estimate_spans_duration_witness:
  "split_ws ''See 99:7-8 now 12.5'' \<noteq> [] \<and> (0::real) < 4 \<and>
   (\<exists>ts. generate_approximate_word_timings ''See 99:7-8 now 12.5'' 4 = Inr ts \<and> ts \<noteq> [] \<and>
      t_start (hd ts) = 0 \<and> \<bar>t_end (last ts) - 4\<bar> \<le> 0.01)"
proof -
  have h1: "split_ws ''See 99:7-8 now 12.5'' \<noteq> []"
    by (simp add: split_ws_def is_space_def)
  have h2: "(0::real) < 4" by simp
  from estimate_spans_duration [OF h1 h2] h1 h2 show ?thesis by blast
qed

text \<open>
  Claim C3 (empty input). The claim says the estimator fails with an error on a text
  without tokens. The source returns the empty sequence there
  (\<^verbatim>\<open>if not words: return []\<close>) and raises nothing.
\<close>

theorem estimate_empty_text_counterexample:
  "generate_approximate_word_timings '''' 1 = Inr []"
  by (simp add: generate_approximate_word_timings_def split_ws_def)

text \<open>
  Claim C3 as amended. Whenever the text holds no whitespace-delimited token, the
  estimator returns the empty timing sequence; it raises no error.
\<close>

theorem estimate_empty_text_returns_empty:
  "split_ws text = [] \<Longrightarrow> generate_approximate_word_timings text duration = Inr []"
  by (simp add: generate_approximate_word_timings_def)

theorem estimate_empty_text_returns_empty_witness:
  "split_ws ''   '' = [] \<and> generate_approximate_word_timings ''   '' (5 / 2) = Inr []"
proof -
  have h: "split_ws ''   '' = []" by (simp add: split_ws_def is_space_def)
  from estimate_empty_text_returns_empty [OF h, of "5 / 2"] h show ?thesis by simp
qed

text \<open>
  Claim C5 (scaling of the raw durations). The claim says the raw durations are scaled
  by \<open>duration / sum\<close> whenever their sum exceeds the total duration, whatever the
  classes of the tokens. The source scales only under
  \<^verbatim>\<open>if special_case_indices and len(words) > len(special_case_indices)\<close>. For the one
  ordinary word below the raw duration is 1/100, above the total duration 1/200; scaled
  by \<open>duration / sum\<close> it would be 1/200, but it is used as it is, and the difference
  shows in the result, since the final normalization tolerates a deviation of 0.01.
\<close>

theorem estimate_scaling_counterexample:
  "sum_list (initial_durations (split_ws ''abcdefghij'') (1 / 200 / 1)) > 1 / 200 \<and>
   initial_durations (split_ws ''abcdefghij'') (1 / 200 / 1) = [1 / 100] \<and>
   1 / 100 * (1 / 200 / sum_list (initial_durations (split_ws ''abcdefghij'') (1 / 200 / 1)))
     = (1 / 200 :: real) \<and>
   adjust_durations (split_ws ''abcdefghij'') (1 / 200)
     (initial_durations (split_ws ''abcdefghij'') (1 / 200 / 1)) = Inr [1 / 100] \<and>
   generate_approximate_word_timings ''abcdefghij'' (1 / 200) = Inr [(''abcdefghij'', 0, 1 / 100)]"
  by code_simp

text \<open>
  Claim C5 as amended. For a positive total duration the raw durations are scaled by
  \<open>duration / sum\<close> before the start and end times are assigned exactly when the text
  holds at least one special-cased token (verse reference or numeral) and at least one
  ordinary token and the sum of the raw durations exceeds the total duration; otherwise
  the raw durations are used as they are.
\<close>

theorem estimate_scales_mixed_texts_only:
  assumes "0 < duration" and "words = split_ws text" and "words \<noteq> []"
    and "raw = initial_durations words (duration / real (length words))"
  shows "generate_approximate_word_timings text duration =
     and_then
       (assign_timings 0 words
          (if list_ex special_case words \<and> list_ex (\<lambda>w. \<not> special_case w) words
              \<and> duration < sum_list raw
           then map (\<lambda>d. d * (duration / sum_list raw)) raw else raw))
       (normalize_timings duration)"
proof -
  have "py_truediv duration (real (length words)) = Inr (duration / real (length words))"
    using assms(3) by (simp add: py_truediv_def)
  then show ?thesis
    using assms(2,3,4) adjust_durations_eq [OF assms(1), of words raw]
    by (simp add: generate_approximate_word_timings_def Let_def)
qed

theorem estimate_scales_mixed_texts_only_witness:
  "(0::real) < 4 \<and> [''See'', ''99:7-8'', ''now'', ''12.5''] = split_ws ''See 99:7-8 now 12.5'' \<and>
   [''See'', ''99:7-8'', ''now'', ''12.5''] \<noteq> [] \<and>
   [3 / 5, 18 / 5, 3 / 5, 8 / 5] =
     initial_durations [''See'', ''99:7-8'', ''now'', ''12.5'']
       (4 / real (length [''See'', ''99:7-8'', ''now'', ''12.5''])) \<and>
   generate_approximate_word_timings ''See 99:7-8 now 12.5'' 4 =
     and_then
       (assign_timings 0 [''See'', ''99:7-8'', ''now'', ''12.5'']
          (map (\<lambda>d. d * (4 / (32 / 5))) [3 / 5, 18 / 5, 3 / 5, 8 / 5]))
       (normalize_timings 4)"
proof -
  have h1: "(0::real) < 4" by simp
  have h2: "[''See'', ''99:7-8'', ''now'', ''12.5''] = split_ws ''See 99:7-8 now 12.5''"
    by (simp add: split_ws_def is_space_def)
  have h3: "[''See'', ''99:7-8'', ''now'', ''12.5''] \<noteq> []" by simp
  have h4: "[3 / 5, 18 / 5, 3 / 5, 8 / 5] =
     initial_durations [''See'', ''99:7-8'', ''now'', ''12.5'']
       (4 / real (length [''See'', ''99:7-8'', ''now'', ''12.5'']))"
    by code_simp
  have cond: "list_ex special_case [''See'', ''99:7-8'', ''now'', ''12.5''] \<and>
      list_ex (\<lambda>w. \<not> special_case w) [''See'', ''99:7-8'', ''now'', ''12.5''] \<and>
      4 < sum_list [3 / 5, 18 / 5, 3 / 5, 8 / 5 :: real]"
    by code_simp
  have total: "sum_list [3 / 5, 18 / 5, 3 / 5, 8 / 5 :: real] = 32 / 5" by simp
  have "generate_approximate_word_timings ''See 99:7-8 now 12.5'' 4 =
     and_then
       (assign_timings 0 [''See'', ''99:7-8'', ''now'', ''12.5'']
          (map (\<lambda>d. d * (4 / (32 / 5))) [3 / 5, 18 / 5, 3 / 5, 8 / 5]))
       (normalize_timings 4)"
    using estimate_scales_mixed_texts_only [OF h1 h2 h3 h4] cond
    by (simp only: if_True total simp_thms)
  then show ?thesis using h1 h2 h3 h4 by blast
qed

text \<open>
  Claim C8 (token classes and weights). The estimator computes what the specification
  describes: each token's raw duration is its weight times \<open>duration / tokenCount\<close>,
  where the weight is \<open>clamp 0.5 4.0 (len/5 * 3)\<close> for a verse reference, else
  \<open>clamp 0.5 3.0 (len/5 * 2)\<close> for a standalone numeral, else \<open>clamp 0.5 2.0 (len/5)\<close>
  (\<open>spec_weight\<close>, the classes tried in this order). The raw durations then pass
  through the adjustment, the assignment of times and the normalization.
\<close>

theorem estimate_weights_follow_spec:
  "generate_approximate_word_timings text duration =
     (if split_ws text = [] then Inr []
      else
        and_then (adjust_durations (split_ws text) duration
                    (map (\<lambda>token. spec_weight token * (duration / real (length (split_ws text))))
                       (split_ws text)))
          (\<lambda>durations.
        and_then (assign_timings 0 (split_ws text) durations) (normalize_timings duration)))"
proof (cases "split_ws text = []")
  case True
  then show ?thesis by (simp add: generate_approximate_word_timings_def)
next
  case False
  have "initial_durations (split_ws text) avg =
      map (\<lambda>token. spec_weight token * avg) (split_ws text)" for avg
    unfolding initial_durations_def
    by (rule map_cong) (auto dest: split_ws_tokens simp: word_length_factor_is_spec_weight)
  moreover have "py_truediv duration (real (length (split_ws text))) =
      Inr (duration / real (length (split_ws text)))"
    using False by (simp add: py_truediv_def)
  ultimately show ?thesis
    using False by (simp add: generate_approximate_word_timings_def Let_def)
qed

theorem estimate_weights_follow_spec_witness:
  "and_then (adjust_durations (split_ws ''See 99:7-8 now 12.5'') 4
               (map (\<lambda>token. spec_weight token * (4 / real (length (split_ws ''See 99:7-8 now 12.5''))))
                  (split_ws ''See 99:7-8 now 12.5'')))
     (\<lambda>durations.
        and_then (assign_timings 0 (split_ws ''See 99:7-8 now 12.5'') durations)
          (normalize_timings 4)) =
   Inr [(''See'', 0, 3 / 8), (''99:7-8'', 3 / 8, 21 / 8), (''now'', 21 / 8, 3), (''12.5'', 3, 4)]"
proof -
  have run: "generate_approximate_word_timings ''See 99:7-8 now 12.5'' 4 =
      Inr [(''See'', 0, 3 / 8), (''99:7-8'', 3 / 8, 21 / 8), (''now'', 21 / 8, 3), (''12.5'', 3, 4)]"
    by code_simp
  have ne: "split_ws ''See 99:7-8 now 12.5'' \<noteq> []"
    by (simp add: split_ws_def is_space_def)
  from estimate_weights_follow_spec [of "''See 99:7-8 now 12.5''" 4] run ne
  show ?thesis by simp
qed

text \<open>
  Claim C9 (tiling). For a text with at least one token and a positive total duration
  the estimator returns one entry per token, in order; each entry starts exactly where
  the one before it ends, and every entry has a strictly positive duration.
\<close>

theorem estimate_tiles_timeline:
  assumes "split_ws text \<noteq> []" and "0 < duration"
  shows "\<exists>ts. generate_approximate_word_timings text duration = Inr ts \<and>
           map t_word ts = split_ws text \<and>
           (\<forall>i. Suc i < length ts \<longrightarrow> t_start (ts ! Suc i) = t_end (ts ! i)) \<and>
           (\<forall>x \<in> set ts. 0 < t_end x - t_start x)"
proof -
  obtain ts where ts: "generate_approximate_word_timings text duration = normalize_timings duration ts"
      "ts \<noteq> []" "map t_word ts = split_ws text" "0 < t_end (last ts)" "contiguous ts"
      "t_start (hd ts) = 0" "\<forall>x \<in> set ts. t_start x < t_end x"
    using estimate_before_normalize [OF assms] by blast
  obtain ts' where ts': "normalize_timings duration ts = Inr ts'" "map t_word ts' = map t_word ts"
      "contiguous ts'" "\<forall>x \<in> set ts'. t_start x < t_end x"
    using normalize_timings_ok [OF ts(2) assms(2) ts(4) ts(5) ts(6)] ts(7) by blast
  show ?thesis
    using ts(1,3) ts' by (auto simp: contiguous_nth)
qed

theorem estimate_tiles_timeline_witness:
  "split_ws ''See 99:7-8 now 12.5'' \<noteq> [] \<and> (0::real) < 4 \<and>
   (\<exists>ts. generate_approximate_word_timings ''See 99:7-8 now 12.5'' 4 = Inr ts \<and>
      map t_word ts = split_ws ''See 99:7-8 now 12.5'' \<and>
      (\<forall>i. Suc i < length ts \<longrightarrow> t_start (ts ! Suc i) = t_end (ts ! i)) \<and>
      (\<forall>x \<in> set ts. 0 < t_end x - t_start x))"
proof -
  have h1: "split_ws ''See 99:7-8 now 12.5'' \<noteq> []"
    by (simp add: split_ws_def is_space_def)
  have h2: "(0::real) < 4" by simp
  from estimate_tiles_timeline [OF h1 h2] h1 h2 show ?thesis by blast
qed

subsection \<open>The citation pattern\<close>

text \<open>
  \<open>citation_pattern_search\<close> accepts exactly the texts that hold a digits-colon-digits
  pattern between an opening parenthesis and the next closing one.
\<close>

lemma paren_not_digit [simp]: "\<not> is_digit CHR ''(''" "\<not> is_digit CHR '')''"
  by (simp_all add: is_digit_def)

lemma digit_run_not_in: "digit_run a \<Longrightarrow> \<not> is_digit c \<Longrightarrow> c \<notin> set a"
  by (auto simp: digit_run_def list_all_iff)

lemma digit_run_no_sep:
  "digit_run a \<Longrightarrow> CHR '':'' \<notin> set a \<and> CHR ''('' \<notin> set a \<and> CHR 0x0A \<notin> set a
     \<and> CHR ''.'' \<notin> set a \<and> CHR ''-'' \<notin> set a"
  by (simp add: digit_run_not_in)

lemma at_dollar_no_sep:
  "at_dollar nl \<Longrightarrow> CHR '':'' \<notin> set nl \<and> CHR ''('' \<notin> set nl"
  by (auto simp: at_dollar_def)


lemma contains_verse_ref_Cons: "contains_verse_ref r \<Longrightarrow> contains_verse_ref (x # r)"
  by (cases r rule: contains_verse_ref.cases) auto

lemma contains_verse_ref_mid:
  "is_digit d1 \<Longrightarrow> is_digit d2 \<Longrightarrow> contains_verse_ref (u @ d1 # CHR '':'' # d2 # v)"
  by (induction u) (auto intro: contains_verse_ref_Cons)

lemma contains_verse_ref_split:
  "contains_verse_ref s \<Longrightarrow>
   \<exists>u d1 d2 v. s = u @ d1 # CHR '':'' # d2 # v \<and> is_digit d1 \<and> is_digit d2"
proof (induction s rule: contains_verse_ref.induct)
  case (1 a b c r)
  show ?case
  proof (cases "is_digit a \<and> b = CHR '':'' \<and> is_digit c")
    case True
    then have "a # b # c # r = [] @ a # CHR '':'' # c # r" by simp
    then show ?thesis using True by blast
  next
    case False
    then obtain u d1 d2 v where "b # c # r = u @ d1 # CHR '':'' # d2 # v" "is_digit d1" "is_digit d2"
      using 1 by auto
    then have "a # b # c # r = (a # u) @ d1 # CHR '':'' # d2 # v" by simp
    then show ?thesis using \<open>is_digit d1\<close> \<open>is_digit d2\<close> by blast
  qed
qed auto

lemma citation_match_at_intro:
  assumes "CHR '')'' \<notin> set body" "contains_verse_ref body"
  shows "citation_match_at (CHR ''('' # body @ CHR '')'' # post) =
           Some (CHR ''('' # body @ [CHR '')''], post)"
proof -
  have "takeWhile (\<lambda>x. x \<noteq> CHR '')'') (body @ CHR '')'' # post) = body"
    using assms(1) by (auto simp: takeWhile_tail takeWhile_eq_all_conv)
  moreover have "dropWhile (\<lambda>x. x \<noteq> CHR '')'') (body @ CHR '')'' # post) = CHR '')'' # post"
    using assms(1) by (auto simp: dropWhile_append)
  ultimately show ?thesis using assms(2) by (simp add: citation_match_at_def)
qed

lemma citation_match_at_elim:
  assumes "citation_match_at s = Some (m, after)"
  shows "\<exists>body. s = CHR ''('' # body @ CHR '')'' # after \<and> m = CHR ''('' # body @ [CHR '')'']
           \<and> CHR '')'' \<notin> set body \<and> contains_verse_ref body"
proof -
  from assms obtain r where s: "s = CHR ''('' # r"
    by (cases s) (auto simp: citation_match_at_def split: if_splits)
  define body where "body = takeWhile (\<lambda>x. x \<noteq> CHR '')'') r"
  define closing where "closing = dropWhile (\<lambda>x. x \<noteq> CHR '')'') r"
  from assms s have c: "closing \<noteq> []" "contains_verse_ref body"
      "m = CHR ''('' # body @ [CHR '')'']" "after = tl closing"
    by (auto simp: citation_match_at_def Let_def body_def closing_def split: if_splits)
  have "hd closing = CHR '')''"
    using c(1) hd_dropWhile [of "\<lambda>x. x \<noteq> CHR '')''" r] by (simp add: closing_def)
  then have "closing = CHR '')'' # after" using c(1,4) by (cases closing) auto
  moreover have "r = body @ closing" by (simp add: body_def closing_def)
  moreover have "CHR '')'' \<notin> set body"
    unfolding body_def by (auto dest: set_takeWhileD)
  ultimately show ?thesis using s c by auto
qed

lemma citation_pattern_search_append:
  "citation_pattern_search r \<Longrightarrow> citation_pattern_search (pre @ r)"
  by (induction pre) auto

lemma citation_pattern_search_split:
  "citation_pattern_search s \<Longrightarrow> \<exists>pre r. s = pre @ r \<and> citation_match_at r \<noteq> None"
proof (induction s)
  case Nil
  then show ?case by simp
next
  case (Cons c s)
  show ?case
  proof (cases "citation_match_at (c # s) \<noteq> None")
    case True
    then have "c # s = [] @ (c # s)" by simp
    then show ?thesis using True by blast
  next
    case False
    then obtain pre r where "s = pre @ r" "citation_match_at r \<noteq> None"
      using Cons by auto
    then have "c # s = (c # pre) @ r" by simp
    then show ?thesis using \<open>citation_match_at r \<noteq> None\<close> by blast
  qed
qed

lemma citation_pattern_search_is_shape: "citation_pattern_search s = citation_shape s"
proof
  assume "citation_pattern_search s"
  from citation_pattern_search_split [OF this]
  obtain pre r where s: "s = pre @ r" and ne: "citation_match_at r \<noteq> None" by blast
  from ne obtain m after where m: "citation_match_at r = Some (m, after)"
    by (cases "citation_match_at r") auto
  from citation_match_at_elim [OF m]
  obtain body where body: "r = CHR ''('' # body @ CHR '')'' # after"
      "CHR '')'' \<notin> set body" "contains_verse_ref body" by blast
  from contains_verse_ref_split [OF body(3)]
  obtain u d1 d2 v where b: "body = u @ d1 # CHR '':'' # d2 # v" "is_digit d1" "is_digit d2"
    by blast
  have eq: "s = pre @ ''('' @ u @ [d1] @ '':'' @ [d2] @ v @ '')'' @ after"
    using s body(1) b(1) by simp
  have no: "CHR '')'' \<notin> set u" "CHR '')'' \<notin> set v" using body(2) b(1) by auto
  have dr: "digit_run [d1]" "digit_run [d2]" using b(2,3) by (simp_all add: digit_run_def)
  show "citation_shape s"
    unfolding citation_shape_def
    apply (rule exI [of _ pre])
    apply (rule exI [of _ u])
    apply (rule exI [of _ "[d1]"])
    apply (rule exI [of _ "[d2]"])
    apply (rule exI [of _ v])
    apply (rule exI [of _ after])
    apply (intro conjI)
        apply (rule eq)
       apply (rule no(1))
      apply (rule no(2))
     apply (rule dr(1))
    apply (rule dr(2))
    done
next
  assume "citation_shape s"
  then obtain pre u a b v post where s: "s = pre @ ''('' @ u @ a @ '':'' @ b @ v @ '')'' @ post"
    and no: "CHR '')'' \<notin> set u" "CHR '')'' \<notin> set v" and ab: "digit_run a" "digit_run b"
    unfolding citation_shape_def by blast
  obtain a' d1 where a: "a = a' @ [d1]" using ab(1) by (cases a rule: rev_cases) (auto simp: digit_run_def)
  obtain d2 b' where b: "b = d2 # b'" using ab(2) by (cases b) (auto simp: digit_run_def)
  have d: "is_digit d1" "is_digit d2" using ab a b by (auto simp: digit_run_def)
  define body where "body = (u @ a') @ d1 # CHR '':'' # d2 # (b' @ v)"
  have "contains_verse_ref body" unfolding body_def using d by (rule contains_verse_ref_mid)
  moreover have "CHR '')'' \<notin> set body"
    using no digit_run_not_in [OF ab(1), of "CHR '')''"] digit_run_not_in [OF ab(2), of "CHR '')''"] a b
    by (auto simp: body_def)
  ultimately have "citation_match_at (CHR ''('' # body @ CHR '')'' # post) \<noteq> None"
    by (simp add: citation_match_at_intro)
  then have "citation_pattern_search (CHR ''('' # body @ CHR '')'' # post)" by simp
  then have "citation_pattern_search (pre @ CHR ''('' # body @ CHR '')'' # post)"
    by (rule citation_pattern_search_append)
  moreover have "s = pre @ CHR ''('' # body @ CHR '')'' # post"
    using s a b by (simp add: body_def)
  ultimately show "citation_pattern_search s" by simp
qed

subsection \<open>The expander\<close>

text \<open>
  A word that matches the verse pattern splits at its colon into exactly two parts, so
  the handling of a single word never raises; the expander is total.
\<close>

lemma split_on_no_sep: "sep \<notin> set s \<Longrightarrow> split_on sep s = [s]"
  by (induction s) auto

lemma split_on_append:
  "sep \<notin> set a \<Longrightarrow> split_on sep (a @ sep # r) = a # split_on sep r"
  by (induction a) auto

lemma verse_reference_split:
  assumes "verse_reference_pattern_match w"
  shows "\<exists>chapter verse. split_on CHR '':'' w = [chapter, verse]"
proof -
  obtain a b nl where ab: "digit_run a" "digit_run b" "at_dollar nl"
    and w: "w = a @ '':'' @ b @ nl \<or> (\<exists>c. digit_run c \<and> w = a @ '':'' @ b @ ''-'' @ c @ nl)"
    using verse_reference_pattern_match_elim [OF assms] by blast
  from w show ?thesis
  proof
    assume "w = a @ '':'' @ b @ nl"
    then have "split_on CHR '':'' w = [a, b @ nl]"
      using digit_run_no_sep [OF ab(1)] digit_run_no_sep [OF ab(2)] at_dollar_no_sep [OF ab(3)]
      by (simp add: split_on_append split_on_no_sep)
    then show ?thesis by blast
  next
    assume "\<exists>c. digit_run c \<and> w = a @ '':'' @ b @ ''-'' @ c @ nl"
    then obtain c where c: "digit_run c" and "w = a @ '':'' @ b @ ''-'' @ c @ nl" by blast
    then have "split_on CHR '':'' w = [a, b @ ''-'' @ c @ nl]"
      using digit_run_no_sep [OF ab(1)] digit_run_no_sep [OF ab(2)] digit_run_no_sep [OF c]
        at_dollar_no_sep [OF ab(3)]
      by (simp add: split_on_append split_on_no_sep)
    then show ?thesis by blast
  qed
qed

lemma expand_word_ok:
  "\<exists>ts. expand_word t = Inr ts \<and> ts \<noteq> [] \<and> t_start (hd ts) = t_start t
      \<and> t_end (last ts) = t_end t"
proof -
  obtain w s e where t: "t = (w, s, e)" by (cases t)
  show ?thesis
  proof (cases "verse_reference_pattern_match w")
    case True
    then obtain p0 p1 where "split_on CHR '':'' w = [p0, p1]"
      using verse_reference_split by blast
    then show ?thesis using True t
      by (simp add: expand_word_def list_get_def Let_def)
  next
    case False
    show ?thesis
    proof (cases "numeric_pattern_match w \<and> length w > 1 \<and> 20 < py_int (py_float w)
        \<and> py_int (py_float w) < 100")
      case split: True
      show ?thesis
      proof (cases "py_int (py_float w) mod 10 > 0")
        case True
        have "expand_word t = Inr [(py_str (py_int (py_float w) div 10) @ ''0'', s, s + (e - s) * 0.6),
            (py_str (py_int (py_float w) mod 10), s + (e - s) * 0.6, e)]"
          unfolding expand_word_def t using False split True by (simp add: Let_def)
        then show ?thesis using t by simp
      next
        case ones: False
        have "expand_word t = Inr [(py_str (py_int (py_float w) div 10) @ ''0'', s, e)]"
          unfolding expand_word_def t using False split ones by (simp add: Let_def)
        then show ?thesis using t by simp
      qed
    next
      case nosplit: False
      have "expand_word t = Inr [(w, s, e)]"
        unfolding expand_word_def t using False nosplit by (auto simp: Let_def)
      then show ?thesis using t by simp
    qed
  qed
qed

lemma collect_citation_parts_append:
  "collect_citation_parts ts = Some (parts, remaining) \<Longrightarrow> ts = parts @ remaining \<and> parts \<noteq> []"
  by (induction ts arbitrary: parts) (auto split: if_splits option.splits)

lemma collect_citation_parts_run:
  "list_all (\<lambda>p. CHR '')'' \<notin> set (t_word p)) pre \<Longrightarrow> CHR '')'' \<in> set (t_word l) \<Longrightarrow>
   collect_citation_parts (pre @ l # rest) = Some (pre @ [l], rest)"
  by (induction pre) auto

lemma merge_citation_Some:
  assumes "merge_citation t rest = Some (c, remaining)"
  shows "\<exists>parts. t # rest = parts @ remaining \<and> parts \<noteq> [] \<and> t_end c = t_end (last parts)
           \<and> t_start c = t_start t"
proof -
  from assms obtain parts where p: "collect_citation_parts (t # rest) = Some (parts, remaining)"
    and c: "c = (join_space (map t_word parts), t_start t, t_end (last parts))"
    by (auto simp: merge_citation_def Let_def split: if_splits option.splits)
  from collect_citation_parts_append [OF p] c show ?thesis by auto
qed

lemma expand_numeric_references_end:
  "\<exists>ys. expand_numeric_references xs = Inr ys \<and>
     (xs \<noteq> [] \<longrightarrow> ys \<noteq> [] \<and> t_end (last ys) = t_end (last xs))"
proof (induction xs rule: expand_numeric_references.induct)
  case 1
  then show ?case by simp
next
  case (2 t rest)
  show ?case
  proof (cases "merge_citation t rest")
    case None
    obtain ts where ts: "expand_word t = Inr ts" "ts \<noteq> []" "t_end (last ts) = t_end t"
      using expand_word_ok [of t] by blast
    obtain ys where ys: "expand_numeric_references rest = Inr ys"
        "rest \<noteq> [] \<longrightarrow> ys \<noteq> [] \<and> t_end (last ys) = t_end (last rest)"
      using "2.IH"(1) [OF None] by blast
    have "expand_numeric_references (t # rest) = Inr (ts @ ys)"
      using None ts(1) ys(1) by simp
    moreover have "t_end (last (ts @ ys)) = t_end (last (t # rest))"
      using ts ys by (cases "rest = []") auto
    ultimately show ?thesis using ts(2) by auto
  next
    case (Some a)
    obtain c remaining where a: "a = (c, remaining)" by (cases a)
    obtain parts where parts: "t # rest = parts @ remaining" "parts \<noteq> []"
        "t_end c = t_end (last parts)"
      using merge_citation_Some [of t rest c remaining] Some a by auto
    obtain ys where ys: "expand_numeric_references remaining = Inr ys"
        "remaining \<noteq> [] \<longrightarrow> ys \<noteq> [] \<and> t_end (last ys) = t_end (last remaining)"
      using "2.IH"(2) [OF Some a [symmetric]] by blast
    have "expand_numeric_references (t # rest) = Inr (c # ys)"
      using Some a ys(1) by simp
    moreover have "t_end (last (c # ys)) = t_end (last (t # rest))"
      using parts ys by (cases "remaining = []") auto
    ultimately show ?thesis by auto
  qed
qed






lemma expand_step_merge:
  assumes "merge_citation t rest = Some (c, remaining)"
  shows "\<exists>expanded. expand_numeric_references remaining = Inr expanded \<and>
           expand_numeric_references (t # rest) = Inr (c # expanded)"
proof -
  obtain ys where "expand_numeric_references remaining = Inr ys"
    using expand_numeric_references_end [of remaining] by blast
  then show ?thesis using assms by simp
qed



lemma merge_citation_run:
  assumes "CHR ''('' \<in> set (t_word (hd (pre @ [closing])))"
    and "list_all (\<lambda>p. CHR '')'' \<notin> set (t_word p)) pre"
    and "CHR '')'' \<in> set (t_word closing)"
    and "citation_pattern_search (join_space (map t_word (pre @ [closing])))"
  shows "merge_citation (hd (pre @ closing # remaining)) (tl (pre @ closing # remaining)) =
     Some ((join_space (map t_word (pre @ [closing])), t_start (hd (pre @ [closing])), t_end closing),
           remaining)"
proof -
  have hd: "hd (pre @ closing # remaining) = hd (pre @ [closing])" by (cases pre) auto
  have "hd (pre @ closing # remaining) # tl (pre @ closing # remaining) = pre @ closing # remaining"
    by simp
  then have "collect_citation_parts (hd (pre @ closing # remaining) # tl (pre @ closing # remaining))
      = Some (pre @ [closing], remaining)"
    using collect_citation_parts_run [OF assms(2,3)] by simp
  then show ?thesis using assms(1,4) hd by (simp add: merge_citation_def)
qed












text \<open>
  Claim C6 (citation atomicity). When the scan stands on an entry whose word holds an
  opening parenthesis, and the words from there up to and including the first one with
  a closing parenthesis, joined by spaces, have the citation shape, the expander emits
  one merged entry for that run, from the start of its first entry to the end of its
  last, and continues after the run.
\<close>

theorem expand_merges_citation:
  assumes "CHR ''('' \<in> set (t_word (hd (pre @ [closing])))"
    and "list_all (\<lambda>p. CHR '')'' \<notin> set (t_word p)) pre"
    and "CHR '')'' \<in> set (t_word closing)"
    and "citation_shape (join_space (map t_word (pre @ [closing])))"
  shows "\<exists>expanded. expand_numeric_references remaining = Inr expanded \<and>
     expand_numeric_references (pre @ closing # remaining) =
       Inr ((join_space (map t_word (pre @ [closing])), t_start (hd (pre @ [closing])), t_end closing)
            # expanded)"
proof -
  have search: "citation_pattern_search (join_space (map t_word (pre @ [closing])))"
    using assms(4) by (simp add: citation_pattern_search_is_shape)
  have "hd (pre @ closing # remaining) # tl (pre @ closing # remaining) = pre @ closing # remaining"
    by simp
  with expand_step_merge [OF merge_citation_run [OF assms(1,2,3) search, of remaining]]
  show ?thesis by simp
qed

theorem expand_merges_citation_witness:
  "CHR ''('' \<in> set (t_word (hd ([(''(Al-A'raf'', 1, 2)] @ [(''7:28)'', 2, 4)]))) \<and>
   list_all (\<lambda>p. CHR '')'' \<notin> set (t_word p)) [(''(Al-A'raf'', 1, 2)] \<and>
   CHR '')'' \<in> set (t_word (''7:28)'', 2, 4)) \<and>
   citation_shape (join_space (map t_word ([(''(Al-A'raf'', 1, 2)] @ [(''7:28)'', 2, 4)]))) \<and>
   expand_numeric_references [(''for'', 4, 5), (''details'', 5, 6)] =
     Inr [(''for'', 4, 5), (''details'', 5, 6)] \<and>
   expand_numeric_references
     [(''(Al-A'raf'', 1, 2), (''7:28)'', 2, 4), (''for'', 4, 5), (''details'', 5, 6)] =
     Inr [(''(Al-A'raf 7:28)'', 1, 4), (''for'', 4, 5), (''details'', 5, 6)]"
proof -
  have h1: "CHR ''('' \<in> set (t_word (hd ([(''(Al-A'raf'', 1, 2)] @ [(''7:28)'', 2, 4)])))"
    by simp
  have h2: "list_all (\<lambda>p. CHR '')'' \<notin> set (t_word p)) [(''(Al-A'raf'', 1, 2)]"
    by simp
  have h3: "CHR '')'' \<in> set (t_word (''7:28)'', 2, 4))" by simp
  have "citation_pattern_search
      (join_space (map t_word ([(''(Al-A'raf'', 1, 2)] @ [(''7:28)'', 2, 4)])))"
    by code_simp
  then have h4: "citation_shape
      (join_space (map t_word ([(''(Al-A'raf'', 1, 2)] @ [(''7:28)'', 2, 4)])))"
    by (simp only: citation_pattern_search_is_shape)
  have rest: "expand_numeric_references [(''for'', 4, 5), (''details'', 5, 6)] =
     Inr [(''for'', 4, 5), (''details'', 5, 6)]"
    by code_simp
  from expand_merges_citation [OF h1 h2 h3 h4, of "[(''for'', 4, 5), (''details'', 5, 6)]"] rest
  have "expand_numeric_references
      [(''(Al-A'raf'', 1, 2), (''7:28)'', 2, 4), (''for'', 4, 5), (''details'', 5, 6)] =
     Inr [(''(Al-A'raf 7:28)'', 1, 4), (''for'', 4, 5), (''details'', 5, 6)]"
    by simp
  with h1 h2 h3 h4 rest show ?thesis by blast
qed






text \<open>
  The examples of the specification (section 8): the citation in running text, and the
  estimator followed by the expander on a compound numeral.
\<close>

lemma expand_citation_example:
  "expand_numeric_references
     [(''See'', 0, 1), (''(Al-A'raf'', 1, 2), (''7:28)'', 2, 4), (''for'', 4, 5), (''details'', 5, 6)] =
   Inr [(''See'', 0, 1), (''(Al-A'raf 7:28)'', 1, 4), (''for'', 4, 5), (''details'', 5, 6)]"
  by code_simp

lemma estimate_then_expand_example:
  "and_then (generate_approximate_word_timings ''73'' 1) expand_numeric_references =
   Inr [(''70'', 0, 3 / 5), (''3'', 3 / 5, 1)]"
  by code_simp

subsection \<open>The corrector\<close>

text \<open>
  The search loop can only start a run at an index above 0
  (\<^verbatim>\<open>if i > 0 and ref_start == -1 and ...\<close>), and a run it finds ends at or after its
  start.
\<close>

lemma locate_reference_bounds:
  "locate_reference fragment i ref_start words = (a, b) \<Longrightarrow> a \<noteq> - 1 \<Longrightarrow> b \<noteq> - 1 \<Longrightarrow>
   (ref_start = - 1 \<or> (0 \<le> ref_start \<and> ref_start \<le> int i)) \<Longrightarrow>
   (if ref_start = - 1 then 1 \<le> a else a = ref_start) \<and> a \<le> b \<and> b < int i + int (length words)"
proof (induction fragment i ref_start words rule: locate_reference.induct)
  case (1 fragment i ref_start)
  then show ?case by simp
next
  case (2 fragment i ref_start word words)
  define rs where "rs = (if i > 0 \<and> ref_start = - 1 \<and> startswith word fragment then int i else ref_start)"
  show ?case
  proof (cases "rs \<noteq> - 1 \<and> (endswith word '')'' \<or> CHR '')'' \<in> set word)")
    case True
    then have "locate_reference fragment i ref_start (word # words) = (rs, int i)"
      by (simp add: rs_def Let_def)
    then show ?thesis using 2(3-) True by (auto simp: rs_def split: if_splits)
  next
    case False
    then have step: "locate_reference fragment i ref_start (word # words) =
        locate_reference fragment (Suc i) rs words"
      by (auto simp: rs_def Let_def)
    have rs: "rs = - 1 \<or> (0 \<le> rs \<and> rs \<le> int (Suc i))"
      using 2(6) by (auto simp: rs_def)
    have ih: "(if rs = - 1 then 1 \<le> a else a = rs) \<and> a \<le> b \<and> b < int (Suc i) + int (length words)"
    proof (cases "rs \<noteq> - 1")
      case True
      then show ?thesis
        using "2.IH"(1) [OF rs_def True _ _ 2(4,5) rs] False step 2(3) by auto
    next
      case f: False
      then show ?thesis
        using "2.IH"(2) [OF rs_def f _ 2(4,5) rs] step 2(3) by auto
    qed
    then show ?thesis
      using 2(6) by (auto simp: rs_def split: if_splits)
  qed
qed

lemma relocate_reference_Some:
  assumes "relocate_reference original_text word_timings ref fragment = Some out"
  shows "\<exists>a b target. 1 \<le> a \<and> a \<le> b \<and> b < length word_timings \<and>
     out = take target (take a word_timings @ drop (Suc b) word_timings)
           @ drop a (take (Suc b) word_timings)
           @ drop target (take a word_timings @ drop (Suc b) word_timings)"
proof -
  obtain rs re where loc: "locate_reference fragment 0 (- 1) (map t_word word_timings) = (rs, re)"
    by (cases "locate_reference fragment 0 (- 1) (map t_word word_timings)")
  from assms loc have ok: "rs \<noteq> - 1" "re \<noteq> - 1"
    by (auto simp: relocate_reference_def Let_def split: if_splits)
  from locate_reference_bounds [OF loc ok] have b: "1 \<le> rs" "rs \<le> re" "re < int (length word_timings)"
    by auto
  define a where "a = nat rs"
  define b where "b = nat re"
  have ab: "1 \<le> a" "a \<le> b" "b < length word_timings" using b by (auto simp: a_def b_def)
  from assms loc ok have
    "out = take (min (length (split_ws (take (nat (py_find original_text ref)) original_text)))
                   (length (take a word_timings @ drop (Suc b) word_timings)))
             (take a word_timings @ drop (Suc b) word_timings)
           @ drop a (take (Suc b) word_timings)
           @ drop (min (length (split_ws (take (nat (py_find original_text ref)) original_text)))
                   (length (take a word_timings @ drop (Suc b) word_timings)))
               (take a word_timings @ drop (Suc b) word_timings)"
    by (auto simp: relocate_reference_def Let_def a_def b_def split: if_splits)
  then show ?thesis using ab by blast
qed

lemma moved_run_length:
  assumes "a \<le> b" "b < length xs"
  shows "length (take target (take a xs @ drop (Suc b) xs) @ drop a (take (Suc b) xs)
           @ drop target (take a xs @ drop (Suc b) xs)) = length xs"
proof -
  define rest where "rest = take a xs @ drop (Suc b) xs"
  define run where "run = drop a (take (Suc b) xs)"
  have "length (take target rest @ run @ drop target rest) = length rest + length run"
    by simp
  moreover have "length rest = a + (length xs - Suc b)" using assms by (simp add: rest_def)
  moreover have "length run = Suc b - a" using assms by (simp add: run_def)
  ultimately show ?thesis using assms by (simp add: rest_def run_def)
qed

text \<open>
  Every match of the citation pattern starts with an opening parenthesis, so
  \<^verbatim>\<open>ref_parts[0]\<close> exists and the corrector never raises.
\<close>

lemma split_from_nonempty: "cur \<noteq> [] \<Longrightarrow> split_from cur s \<noteq> []"
  by (induction cur s rule: split_from.induct) auto

lemma split_ws_paren: "split_ws (CHR ''('' # s) \<noteq> []"
  by (simp add: split_ws_def is_space_def split_from_nonempty)

lemma citation_pattern_findall_paren:
  "m \<in> set (citation_pattern_findall s) \<Longrightarrow> \<exists>r. m = CHR ''('' # r"
proof (induction s rule: citation_pattern_findall.induct)
  case 1
  then show ?case by simp
next
  case (2 c r)
  show ?case
  proof (cases "citation_match_at (c # r)")
    case None
    then show ?thesis using 2 by simp
  next
    case (Some p)
    obtain m' after where p: "p = (m', after)" by (cases p)
    have "\<exists>r. m' = CHR ''('' # r"
      using Some p by (auto simp: citation_match_at_def Let_def split: if_splits)
    then show ?thesis using 2 Some p by auto
  qed
qed

lemma fix_references_result:
  assumes "\<And>ref. ref \<in> set refs \<Longrightarrow> \<exists>r. ref = CHR ''('' # r"
  shows "fix_references original_text word_timings refs = Inr word_timings \<or>
     (\<exists>ref fragment out. relocate_reference original_text word_timings ref fragment = Some out \<and>
        fix_references original_text word_timings refs = Inr out)"
  using assms
proof (induction refs)
  case Nil
  then show ?case by simp
next
  case (Cons ref refs)
  then obtain r where r: "ref = CHR ''('' # r" by auto
  then obtain p ps where parts: "split_ws ref = p # ps"
    using split_ws_paren [of r] by (cases "split_ws ref") auto
  have ih: "fix_references original_text word_timings refs = Inr word_timings \<or>
     (\<exists>ref fragment out. relocate_reference original_text word_timings ref fragment = Some out \<and>
        fix_references original_text word_timings refs = Inr out)"
    using Cons by auto
  show ?case
  proof (cases "relocate_reference original_text word_timings ref (strip_chars CHR ''('' p)")
    case None
    then show ?thesis using ih parts by (auto simp: Let_def list_get_def)
  next
    case (Some out)
    then show ?thesis using ih parts by (auto simp: Let_def list_get_def)
  qed
qed

text \<open>
  For every input the corrector returns a sequence of the input's length: either the
  input itself, or the input with one run of entries moved. The moved run starts at an
  index \<open>a \<ge> 1\<close>: the entry at index 0 is never part of it.
\<close>

lemma fix_reference_order_result:
  "\<exists>out. fix_reference_order original_text word_timings = Inr out \<and>
     length out = length word_timings \<and>
     (out = word_timings \<or>
      (\<exists>a b target. 1 \<le> a \<and> a \<le> b \<and> b < length word_timings \<and>
         out = take target (take a word_timings @ drop (Suc b) word_timings)
               @ drop a (take (Suc b) word_timings)
               @ drop target (take a word_timings @ drop (Suc b) word_timings)))"
proof -
  have "fix_references original_text word_timings (citation_pattern_findall original_text)
          = Inr word_timings \<or>
     (\<exists>ref fragment out. relocate_reference original_text word_timings ref fragment = Some out \<and>
        fix_references original_text word_timings (citation_pattern_findall original_text) = Inr out)"
    by (rule fix_references_result) (rule citation_pattern_findall_paren)
  then have "fix_reference_order original_text word_timings = Inr word_timings \<or>
     (\<exists>ref fragment out. relocate_reference original_text word_timings ref fragment = Some out \<and>
        fix_reference_order original_text word_timings = Inr out)"
    by (auto simp: fix_reference_order_def Let_def)
  then show ?thesis
  proof
    assume "fix_reference_order original_text word_timings = Inr word_timings"
    then show ?thesis by simp
  next
    assume "\<exists>ref fragment out. relocate_reference original_text word_timings ref fragment = Some out \<and>
        fix_reference_order original_text word_timings = Inr out"
    then obtain ref fragment out
      where rel: "relocate_reference original_text word_timings ref fragment = Some out"
        and res: "fix_reference_order original_text word_timings = Inr out" by blast
    from relocate_reference_Some [OF rel] obtain a b target where
      ab: "1 \<le> a" "a \<le> b" "b < length word_timings" and
      out: "out = take target (take a word_timings @ drop (Suc b) word_timings)
           @ drop a (take (Suc b) word_timings)
           @ drop target (take a word_timings @ drop (Suc b) word_timings)" by blast
    have "length out = length word_timings"
      unfolding out using ab(2,3) by (rule moved_run_length)
    then show ?thesis using res ab out by blast
  qed
qed

text \<open>
  Claim C1 (misplacement correction). The claim says that a citation whose tokens come
  first in the timing sequence is moved to the position its place in the text implies.
  On the specification's own example the source returns the sequence unchanged, with the
  citation still in front: the fragment \<^verbatim>\<open>Al-A'raf\<close> (the citation's first word
  without its parenthesis) is no prefix of the token \<^verbatim>\<open>(Al-A'raf\<close>, so nothing is
  detected. With tokens that carry no parenthesis the citation is detected, but the
  search loop skips index 0 and finds no run to move. The expected result would have
  been the citation at index 2, after \<^verbatim>\<open>The verse\<close>.
\<close>

theorem fix_reference_order_leading_citation_unmoved:
  "citation_pattern_findall ''The verse (Al-A'raf 7:28) states clearly that'' =
     [''(Al-A'raf 7:28)''] \<and>
   fix_reference_order ''The verse (Al-A'raf 7:28) states clearly that''
     [(''(Al-A'raf'', 0, 1), (''7:28)'', 1, 2), (''The'', 2, 3), (''verse'', 3, 4),
      (''states'', 4, 5), (''clearly'', 5, 6), (''that'', 6, 7)] =
   Inr [(''(Al-A'raf'', 0, 1), (''7:28)'', 1, 2), (''The'', 2, 3), (''verse'', 3, 4),
        (''states'', 4, 5), (''clearly'', 5, 6), (''that'', 6, 7)] \<and>
   fix_reference_order ''The verse (Al-A'raf 7:28) states clearly that''
     [(''Al-A'raf'', 0, 1), (''7:28)'', 1, 2), (''The'', 2, 3), (''verse'', 3, 4),
      (''states'', 4, 5), (''clearly'', 5, 6), (''that'', 6, 7)] =
   Inr [(''Al-A'raf'', 0, 1), (''7:28)'', 1, 2), (''The'', 2, 3), (''verse'', 3, 4),
        (''states'', 4, 5), (''clearly'', 5, 6), (''that'', 6, 7)]"
  by code_simp

text \<open>
  The relocation itself works once the run starts at index 1: the same citation, placed
  second, is moved behind \<^verbatim>\<open>verse\<close>.
\<close>

lemma fix_reference_order_moves_second_place:
  "fix_reference_order ''The verse (Al-A'raf 7:28) states clearly that''
     [(''The'', 0, 1), (''Al-A'raf'', 1, 2), (''7:28)'', 2, 3), (''verse'', 3, 4),
      (''states'', 4, 5), (''clearly'', 5, 6), (''that'', 6, 7)] =
   Inr [(''The'', 0, 1), (''verse'', 3, 4), (''Al-A'raf'', 1, 2), (''7:28)'', 2, 3),
        (''states'', 4, 5), (''clearly'', 5, 6), (''that'', 6, 7)]"
  by code_simp

end
